theory Spec2Isabelle
  imports Main
begin

section \<open>Data model of the container (core.ts)\<close>

text \<open>
  An identifier is a constructor reference. The provider registry is a JavaScript
  \<^verbatim>\<open>Map\<close> keyed by the reference itself, so two identifiers are the same key
  exactly when they are the same reference; \<open>id_name\<close> is the function's
  \<^verbatim>\<open>name\<close> property (empty for an anonymous class) and \<open>is_function\<close> is
  \<^verbatim>\<open>typeof id === 'function'\<close>.
\<close>

datatype ident = Ident (id_ref: nat) (id_name: string) (is_function: bool)

text \<open>A qualifier is a string or a symbol (a unique token with a description).\<close>

datatype qualifier = QStr string | QSym nat string

datatype ScopeKind = Single | Factory | Scoped

text \<open>
  Instances: a literal, or an object made by \<^verbatim>\<open>new\<close>, which carries its address
  (reference equality is equality of addresses), its class and its constructor arguments.
\<close>

datatype val = Lit string | Obj (addr: nat) (cls: ident) (args: "val list")

text \<open>
  Every error of the container but one is a plain \<^verbatim>\<open>Error\<close> with a message;
  \<^verbatim>\<open>BeanOverrideError\<close> carries the key.
\<close>

datatype error = Error string | BeanOverrideError string

text \<open>
  What a cleanup function does when called: return, throw, or return a promise that is
  fulfilled or rejected. Cleanup functions do not call back into the container.
\<close>

datatype effect = Completes | Throws | Resolves | Rejects

text \<open>\<^verbatim>\<open>OnClose\<close>: a cleanup hook, with an identity for the call log.\<close>

datatype hook = Hook nat "val \<Rightarrow> effect"

text \<open>
  The body of a factory function \<^verbatim>\<open>(ctx) => ...\<close>: it returns, throws, makes an
  object, or resolves through the context it was given (\<^verbatim>\<open>ctx.get\<close>, or an awaited
  \<^verbatim>\<open>ctx.getAsync\<close>) and goes on with the value. An error of a nested resolution
  propagates.
\<close>

datatype fprog =
    Return val
  | Throw string
  | New ident "val list" "val \<Rightarrow> fprog"
  | CtxGet ident "qualifier option" "val \<Rightarrow> fprog"
  | CtxGetAsync ident "qualifier option" "val \<Rightarrow> fprog"

text \<open>
  A factory is a plain function, whose body runs at the call, or a function returning a
  promise (an \<^verbatim>\<open>async\<close> function). Resolution is modelled for one task that
  awaits each promise where it gets it: the body of an \<^verbatim>\<open>async\<close> factory runs
  when \<^verbatim>\<open>getAsync\<close> awaits the promise, and is not run for a promise that
  \<^verbatim>\<open>get\<close> receives and drops. Bodies of plain functions do not use
  \<open>CtxGetAsync\<close>.
\<close>

datatype factory_fn = SyncFn fprog | AsyncFn fprog

record provider =
  kind :: ScopeKind
  pid :: ident
  qualifier :: "qualifier option"
  useClass :: "ident option"
  useFactory :: "factory_fn option"
  useValue :: "val option"
  deps :: "ident list option"
  onClose :: "hook option"

datatype strategy = StratError | LastWins

record StartOptions =
  opt_allowOverride :: "bool option"
  opt_overrideStrategy :: "strategy option"

record disposable =
  dkey :: string
  dinstance :: val
  dclose :: "hook option"

record container =
  singles :: "string \<rightharpoonup> val"
  providers :: "ident \<rightharpoonup> (qualifier option \<rightharpoonup> provider)"
  resolving :: "string set"
  scopedCache :: "string \<rightharpoonup> val"
  disposables :: "disposable list"
  allowOverride :: bool
  overrideStrategy :: strategy

text \<open>
  A reference to a container. The field \<^verbatim>\<open>parent\<close> is read-only and set by the
  constructor, so the reference of a scope carries its parent: \<open>Scope n p\<close> is the
  \<open>n\<close>-th scope begun, from \<open>p\<close>.
\<close>

datatype cref = Root | Scope nat cref

datatype event = HookCalled nat val | MethodCalled string val

text \<open>
  The program state: the containers by reference (shared, so that a scope writes to its
  root), the allocation counters, and the environment the container reads: the ambient
  reflection metadata (\<^verbatim>\<open>Reflect.getMetadata\<close>, absent without reflect-metadata), the
  methods an instance has, and the log of cleanup calls.
\<close>

record world =
  conts :: "cref \<Rightarrow> container"
  next_addr :: nat
  next_scope :: nat
  reflect :: "(ident \<Rightarrow> ident list option) option"
  methods :: "val \<Rightarrow> string \<Rightarrow> effect option"
  log :: "event list"

text \<open>
  A computation on the state returns an error or a value, with the state it leaves
  (a \<^verbatim>\<open>throw\<close> keeps the mutations made before it); \<open>None\<close> is a computation that
  did not finish within its recursion budget.
\<close>

type_synonym 'a comp = "world \<Rightarrow> ((error + 'a) \<times> world) option"

definition ok :: "'a \<Rightarrow> 'a comp" where
  "ok a w = Some (Inr a, w)"

definition throw :: "error \<Rightarrow> 'a comp" where
  "throw e w = Some (Inl e, w)"

definition thenC :: "'a comp \<Rightarrow> ('a \<Rightarrow> 'b comp) \<Rightarrow> 'b comp" where
  "thenC m f w =
     (case m w of
        None \<Rightarrow> None
      | Some (Inl e, w') \<Rightarrow> Some (Inl e, w')
      | Some (Inr a, w') \<Rightarrow> f a w')"

text \<open>\<^verbatim>\<open>xs.map(f)\<close> with an effectful \<open>f\<close>: in order, stopping at the first throw.\<close>

fun mapC :: "('a \<Rightarrow> 'b comp) \<Rightarrow> 'a list \<Rightarrow> 'b list comp" where
  "mapC f [] = ok []"
| "mapC f (x # xs) = thenC (f x) (\<lambda>y. thenC (mapC f xs) (\<lambda>ys. ok (y # ys)))"

section \<open>The container\<close>

definition new_container :: container where
  "new_container =
     \<lparr> singles = Map.empty, providers = Map.empty, resolving = {},
       scopedCache = Map.empty, disposables = [],
       allowOverride = False, overrideStrategy = StratError \<rparr>"

definition configure :: "StartOptions \<Rightarrow> container \<Rightarrow> container" where
  "configure opts cn =
     (let a = (case opt_allowOverride opts of None \<Rightarrow> False | Some b \<Rightarrow> b) in
      cn\<lparr> allowOverride := a,
          overrideStrategy :=
            (case opt_overrideStrategy opts of
               Some s \<Rightarrow> s
             | None \<Rightarrow> (if a then LastWins else StratError)) \<rparr>)"

fun parent :: "cref \<Rightarrow> cref option" where
  "parent Root = None"
| "parent (Scope n p) = Some p"

fun root :: "cref \<Rightarrow> cref" where
  "root Root = Root"
| "root (Scope n p) = root p"

definition qstring :: "qualifier \<Rightarrow> string" where
  "qstring q = (case q of QStr s \<Rightarrow> s | QSym n d \<Rightarrow> ''Symbol('' @ d @ '')'')"

definition keyOf :: "ident \<Rightarrow> qualifier option \<Rightarrow> string" where
  "keyOf i q =
     (if id_name i = [] then ''[[ctor]]'' else id_name i) @
     (case q of None \<Rightarrow> [] | Some q' \<Rightarrow> ''::'' @ qstring q')"

definition lookup :: "container \<Rightarrow> ident \<Rightarrow> qualifier option \<Rightarrow> provider option" where
  "lookup cn i q = (case providers cn i of None \<Rightarrow> None | Some inner \<Rightarrow> inner q)"

fun getProvider :: "world \<Rightarrow> cref \<Rightarrow> ident \<Rightarrow> qualifier option \<Rightarrow> provider option" where
  "getProvider w Root i q = lookup (conts w Root) i q"
| "getProvider w (Scope n p) i q =
     (case lookup (conts w (Scope n p)) i q of
        Some pr \<Rightarrow> Some pr
      | None \<Rightarrow> getProvider w p i q)"

definition setProvider :: "provider \<Rightarrow> container \<Rightarrow> error + container" where
  "setProvider p cn =
     (let inner = (case providers cn (pid p) of None \<Rightarrow> Map.empty | Some m \<Rightarrow> m);
          key = qualifier p;
          kStr = keyOf (pid p) key
      in if inner key \<noteq> None \<and> (\<not> allowOverride cn \<or> overrideStrategy cn = StratError)
         then Inl (BeanOverrideError kStr)
         else Inr (cn\<lparr> providers := (providers cn)(pid p \<mapsto> inner(key \<mapsto> p)) \<rparr>))"

text \<open>\<^verbatim>\<open>load\<close>: the first provider that is refused throws, the earlier ones stay.\<close>

fun load :: "provider list \<Rightarrow> container \<Rightarrow> (error \<times> container) + container" where
  "load [] cn = Inr cn"
| "load (p # ps) cn =
     (case setProvider p cn of
        Inl e \<Rightarrow> Inl (e, cn)
      | Inr cn' \<Rightarrow> load ps cn')"

definition beginScope :: "cref \<Rightarrow> world \<Rightarrow> cref \<times> world" where
  "beginScope c w =
     (let s = Scope (next_scope w) c;
          cn = configure \<lparr> opt_allowOverride = Some (allowOverride (conts w c)),
                           opt_overrideStrategy = Some (overrideStrategy (conts w c)) \<rparr>
                 new_container
      in (s, w\<lparr> conts := (conts w)(s := cn), next_scope := Suc (next_scope w) \<rparr>))"

definition upd :: "cref \<Rightarrow> (container \<Rightarrow> container) \<Rightarrow> world \<Rightarrow> world" where
  "upd c f w = w\<lparr> conts := (conts w)(c := f (conts w c)) \<rparr>"

definition cacheAndTrack :: "cref \<Rightarrow> provider \<Rightarrow> string \<Rightarrow> val \<Rightarrow> world \<Rightarrow> world" where
  "cacheAndTrack c p keyStr inst w =
     (let w1 = (if kind p = Single
                then upd (root c) (\<lambda>cn. cn\<lparr> singles := (singles cn)(keyStr \<mapsto> inst) \<rparr>) w
                else w);
          w2 = (if kind p = Scoped
                then upd c (\<lambda>cn. cn\<lparr> scopedCache := (scopedCache cn)(keyStr \<mapsto> inst) \<rparr>) w1
                else w1)
      in if kind p \<noteq> Factory
         then upd c (\<lambda>cn. cn\<lparr> disposables :=
                 disposables cn @ [\<lparr> dkey = keyStr, dinstance = inst, dclose = onClose p \<rparr>] \<rparr>) w2
         else w2)"

text \<open>
  \<^verbatim>\<open>new ctor(...args)\<close>: a fresh object, at the next free address. Constructors do
  nothing else.
\<close>

definition new_obj :: "ident \<Rightarrow> val list \<Rightarrow> val comp" where
  "new_obj c as w = Some (Inr (Obj (next_addr w) c as), w\<lparr> next_addr := Suc (next_addr w) \<rparr>)"

definition paramTypes :: "world \<Rightarrow> ident \<Rightarrow> ident list" where
  "paramTypes w ctor =
     (case reflect w of
        None \<Rightarrow> []
      | Some getMeta \<Rightarrow> (case getMeta ctor of None \<Rightarrow> [] | Some ts \<Rightarrow> ts))"

text \<open>
  The methods below call \<^verbatim>\<open>this.get\<close> and \<^verbatim>\<open>this.getAsync\<close>; they take the two
  bound methods as \<open>g\<close> and \<open>ga\<close>, which is also the \<^verbatim>\<open>FactoryCtx\<close> a factory
  receives.
\<close>

type_synonym resolver = "ident \<Rightarrow> qualifier option \<Rightarrow> val comp"

primrec run :: "resolver \<Rightarrow> resolver \<Rightarrow> fprog \<Rightarrow> val comp" where
  "run g ga (Return v) = ok v"
| "run g ga (Throw msg) = throw (Error msg)"
| "run g ga (New c as k) = (\<lambda>w. thenC (new_obj c as) (\<lambda>v. run g ga (k v)) w)"
| "run g ga (CtxGet i q k) = (\<lambda>w. thenC (g i q) (\<lambda>v. run g ga (k v)) w)"
| "run g ga (CtxGetAsync i q k) = (\<lambda>w. thenC (ga i q) (\<lambda>v. run g ga (k v)) w)"

definition construct :: "resolver \<Rightarrow> ident \<Rightarrow> val comp" where
  "construct g ctor w =
     (let ts = paramTypes w ctor
      in if ts \<noteq> [] then thenC (mapC (\<lambda>dep. g dep None) ts) (new_obj ctor) w
         else new_obj ctor [] w)"

text \<open>
  \<^verbatim>\<open>constructAsync\<close> awaits \<^verbatim>\<open>Promise.all\<close> of the parameters' \<^verbatim>\<open>getAsync\<close>;
  here each is awaited in turn.
\<close>

definition constructAsync :: "resolver \<Rightarrow> ident \<Rightarrow> val comp" where
  "constructAsync ga ctor w =
     (let ts = paramTypes w ctor
      in if ts \<noteq> [] then thenC (mapC (\<lambda>dep. ga dep None) ts) (new_obj ctor) w
         else new_obj ctor [] w)"

text \<open>The result of \<^verbatim>\<open>instantiate\<close>: \<^verbatim>\<open>T | Promise<T>\<close>.\<close>

datatype maybe = Now val | Later fprog

definition instantiate :: "resolver \<Rightarrow> resolver \<Rightarrow> provider \<Rightarrow> maybe comp" where
  "instantiate g ga p =
     (case useValue p of
        Some v \<Rightarrow> ok (Now v)
      | None \<Rightarrow>
        (case useFactory p of
           Some (SyncFn body) \<Rightarrow> thenC (run g ga body) (\<lambda>v. ok (Now v))
         | Some (AsyncFn body) \<Rightarrow> ok (Later body)
         | None \<Rightarrow>
           (case useClass p of
              Some c \<Rightarrow>
                (if (case deps p of None \<Rightarrow> False | Some ds \<Rightarrow> ds \<noteq> [])
                 then thenC (mapC (\<lambda>d. g d None) (the (deps p)))
                        (\<lambda>as. thenC (new_obj c as) (\<lambda>v. ok (Now v)))
                 else thenC (construct g c) (\<lambda>v. ok (Now v)))
            | None \<Rightarrow>
                throw (Error (''Invalid provider for '' @ keyOf (pid p) (qualifier p))))))"

definition mark :: "cref \<Rightarrow> string \<Rightarrow> world \<Rightarrow> world" where
  "mark c k = upd c (\<lambda>cn. cn\<lparr> resolving := insert k (resolving cn) \<rparr>)"

definition unmark :: "cref \<Rightarrow> string \<Rightarrow> world \<Rightarrow> world" where
  "unmark c k = upd c (\<lambda>cn. cn\<lparr> resolving := resolving cn - {k} \<rparr>)"

definition get_body :: "resolver \<Rightarrow> resolver \<Rightarrow> cref \<Rightarrow> ident \<Rightarrow> qualifier option \<Rightarrow> val comp" where
  "get_body g ga c i q w =
     (let k = keyOf i q in
      case singles (conts w c) k of
        Some v \<Rightarrow> ok v w
      | None \<Rightarrow>
        (case scopedCache (conts w c) k of
           Some v \<Rightarrow> ok v w
         | None \<Rightarrow>
           (case getProvider w c i q of
              None \<Rightarrow>
                if is_function i then construct g i w
                else throw (Error (''No provider for: '' @ k)) w
            | Some p \<Rightarrow>
                if k \<in> resolving (conts w c)
                then throw (Error (''Circular dependency detected at '' @ k)) w
                else
                  (case instantiate g ga p (mark c k w) of
                     None \<Rightarrow> None
                   | Some (Inl e, w') \<Rightarrow> Some (Inl e, w')
                   | Some (Inr (Later body), w') \<Rightarrow>
                       Some (Inl (Error (''Tried to resolve async provider with sync get(): ''
                                         @ k @ ''. Use getAsync().'')), w')
                   | Some (Inr (Now inst), w') \<Rightarrow>
                       Some (Inr inst, unmark c k (cacheAndTrack c p k inst w'))))))"

definition getAsync_body :: "resolver \<Rightarrow> resolver \<Rightarrow> cref \<Rightarrow> ident \<Rightarrow> qualifier option \<Rightarrow> val comp" where
  "getAsync_body g ga c i q w =
     (let k = keyOf i q in
      case singles (conts w c) k of
        Some v \<Rightarrow> ok v w
      | None \<Rightarrow>
        (case scopedCache (conts w c) k of
           Some v \<Rightarrow> ok v w
         | None \<Rightarrow>
           (case getProvider w c i q of
              None \<Rightarrow>
                if is_function i then constructAsync ga i w
                else throw (Error (''No provider for: '' @ k)) w
            | Some p \<Rightarrow>
                if k \<in> resolving (conts w c)
                then throw (Error (''Circular dependency detected at '' @ k)) w
                else
                  (case thenC (instantiate g ga p)
                          (\<lambda>m. case m of Later body \<Rightarrow> run g ga body | Now v \<Rightarrow> ok v)
                          (mark c k w) of
                     None \<Rightarrow> None
                   | Some (Inl e, w') \<Rightarrow> Some (Inl e, w')
                   | Some (Inr inst, w') \<Rightarrow>
                       Some (Inr inst, unmark c k (cacheAndTrack c p k inst w'))))))"

text \<open>
  \<^verbatim>\<open>get\<close> and \<^verbatim>\<open>getAsync\<close> call each other through the factories and the
  dependencies; the first argument bounds the depth of nested calls.
\<close>

fun get :: "nat \<Rightarrow> cref \<Rightarrow> ident \<Rightarrow> qualifier option \<Rightarrow> val comp"
  and getAsync :: "nat \<Rightarrow> cref \<Rightarrow> ident \<Rightarrow> qualifier option \<Rightarrow> val comp" where
  "get 0 c i q w = None"
| "get (Suc n) c i q w = get_body (get n c) (getAsync n c) c i q w"
| "getAsync 0 c i q w = None"
| "getAsync (Suc n) c i q w = getAsync_body (get n c) (getAsync n c) c i q w"

definition override :: "cref \<Rightarrow> ident \<Rightarrow> val \<Rightarrow> qualifier option \<Rightarrow> world \<Rightarrow> error + world" where
  "override c i v q w =
     (let p = \<lparr> kind = Single, pid = i, qualifier = q, useClass = None, useFactory = None,
                useValue = Some v, deps = None, onClose = None \<rparr>
      in case setProvider p (conts w c) of
           Inl e \<Rightarrow> Inl e
         | Inr cn \<Rightarrow>
             Inr (upd (root c) (\<lambda>r. r\<lparr> singles := (singles r)(keyOf i q \<mapsto> v) \<rparr>)
                    (upd c (\<lambda>_. cn) w)))"

definition reset :: "cref \<Rightarrow> world \<Rightarrow> world" where
  "reset c = upd c (\<lambda>cn. cn\<lparr> singles := Map.empty, providers := Map.empty, resolving := {},
                              scopedCache := Map.empty, disposables := [] \<rparr>)"

text \<open>
  \<^verbatim>\<open>startDI\<close>: a new process-wide container, configured with the options given
  (\<^verbatim>\<open>opts ?? {}\<close>), then loaded with the merged modules. When \<^verbatim>\<open>load\<close> throws, the
  container stays as far as it was loaded.
\<close>

definition startDI :: "StartOptions option \<Rightarrow> provider list \<Rightarrow> world \<Rightarrow> error option \<times> world" where
  "startDI opts ps w =
     (let os = (case opts of
                 None \<Rightarrow> \<lparr> opt_allowOverride = None, opt_overrideStrategy = None \<rparr>
               | Some x \<Rightarrow> x);
          cn = configure os new_container
      in case load ps cn of
           Inl (e, cn') \<Rightarrow> (Some e, upd Root (\<lambda>_. cn') w)
         | Inr cn' \<Rightarrow> (None, upd Root (\<lambda>_. cn') w))"

subsection \<open>Disposal\<close>

text \<open>
  Calling a cleanup function: the call is logged, then it returns or throws; a promise it
  returns is awaited, and a rejected one throws at the \<^verbatim>\<open>await\<close>.
\<close>

definition invoke :: "event \<Rightarrow> effect \<Rightarrow> world \<Rightarrow> (error + unit) \<times> world" where
  "invoke ev eff w =
     (let w' = w\<lparr> log := log w @ [ev] \<rparr>
      in case eff of
           Completes \<Rightarrow> (Inr (), w')
         | Resolves \<Rightarrow> (Inr (), w')
         | Throws \<Rightarrow> (Inl (Error ''cleanup threw''), w')
         | Rejects \<Rightarrow> (Inl (Error ''cleanup rejected''), w'))"

fun tryAutoDispose_fns :: "string list \<Rightarrow> val \<Rightarrow> world \<Rightarrow> (error + unit) \<times> world" where
  "tryAutoDispose_fns [] obj w = (Inr (), w)"
| "tryAutoDispose_fns (fn # fns) obj w =
     (case methods w obj fn of
        Some m \<Rightarrow> invoke (MethodCalled fn obj) m w
      | None \<Rightarrow> tryAutoDispose_fns fns obj w)"

definition tryAutoDispose :: "val \<Rightarrow> world \<Rightarrow> (error + unit) \<times> world" where
  "tryAutoDispose obj w = tryAutoDispose_fns [''dispose'', ''close'', ''destroy''] obj w"

text \<open>The body of the \<^verbatim>\<open>try\<close> in \<^verbatim>\<open>shutdown\<close>, for one entry.\<close>

definition dispose_entry :: "disposable \<Rightarrow> world \<Rightarrow> (error + unit) \<times> world" where
  "dispose_entry d w =
     (case dclose d of
        Some (Hook h f) \<Rightarrow> invoke (HookCalled h (dinstance d)) (f (dinstance d)) w
      | None \<Rightarrow> tryAutoDispose (dinstance d) w)"

text \<open>\<^verbatim>\<open>try { ... } catch { /* swallow */ }\<close>\<close>

definition swallow :: "(world \<Rightarrow> (error + unit) \<times> world) \<Rightarrow> world \<Rightarrow> world" where
  "swallow m w = snd (m w)"

text \<open>The loop runs from the last index down to 0.\<close>

definition shutdown :: "cref \<Rightarrow> world \<Rightarrow> world" where
  "shutdown c w =
     (let w' = fold (\<lambda>d. swallow (dispose_entry d)) (rev (disposables (conts w c))) w
      in upd c (\<lambda>cn. cn\<lparr> disposables := [], singles := Map.empty,
                          scopedCache := Map.empty \<rparr>) w')"

subsection \<open>Provider helpers\<close>

text \<open>
  \<^verbatim>\<open>singleOf\<close>, \<^verbatim>\<open>factoryOf\<close>, \<^verbatim>\<open>scopedOf\<close>: the second argument is
  absent, a factory function, or options (qualifier, deps, onClose) spread over a
  provider that constructs the class itself.
\<close>

datatype optsOrFactory =
    NoOpts
  | Fn factory_fn
  | Opts "qualifier option" "ident list option" "hook option"

definition providerOf :: "ScopeKind \<Rightarrow> ident \<Rightarrow> optsOrFactory \<Rightarrow> provider" where
  "providerOf k ctor x =
     (case x of
        Fn f \<Rightarrow> \<lparr> kind = k, pid = ctor, qualifier = None, useClass = None,
                  useFactory = Some f, useValue = None, deps = None, onClose = None \<rparr>
      | NoOpts \<Rightarrow> \<lparr> kind = k, pid = ctor, qualifier = None, useClass = Some ctor,
                    useFactory = None, useValue = None, deps = None, onClose = None \<rparr>
      | Opts q ds h \<Rightarrow> \<lparr> kind = k, pid = ctor, qualifier = q, useClass = Some ctor,
                        useFactory = None, useValue = None, deps = ds, onClose = h \<rparr>)"

definition singleOf :: "ident \<Rightarrow> optsOrFactory \<Rightarrow> provider" where
  "singleOf = providerOf Single"

definition factoryOf :: "ident \<Rightarrow> optsOrFactory \<Rightarrow> provider" where
  "factoryOf = providerOf Factory"

definition scopedOf :: "ident \<Rightarrow> optsOrFactory \<Rightarrow> provider" where
  "scopedOf = providerOf Scoped"

text \<open>The state at program start: no container touched yet, no reflection metadata.\<close>

definition world0 :: world where
  "world0 = \<lparr> conts = (\<lambda>_. new_container), next_addr = 0, next_scope = 0,
               reflect = None, methods = (\<lambda>_ _. None), log = [] \<rparr>"

text \<open>What \<^verbatim>\<open>get\<close> does from the build step on, for the provider \<open>p\<close> found under key \<open>k\<close>.\<close>

definition build :: "nat \<Rightarrow> cref \<Rightarrow> provider \<Rightarrow> string \<Rightarrow> val comp" where
  "build n c p k w =
     (case instantiate (get n c) (getAsync n c) p (mark c k w) of
        None \<Rightarrow> None
      | Some (Inl e, w') \<Rightarrow> Some (Inl e, w')
      | Some (Inr (Later body), w') \<Rightarrow>
          Some (Inl (Error (''Tried to resolve async provider with sync get(): ''
                            @ k @ ''. Use getAsync().'')), w')
      | Some (Inr (Now inst), w') \<Rightarrow>
          Some (Inr inst, unmark c k (cacheAndTrack c p k inst w')))"


section \<open>Specification-side definitions\<close>

text \<open>
  The cleanup call the specification expects for one disposal entry: the declared hook
  when there is one, otherwise the first of \<^verbatim>\<open>dispose\<close>, \<^verbatim>\<open>close\<close>,
  \<^verbatim>\<open>destroy\<close> the instance has, otherwise none.
\<close>

definition expected_cleanup :: "(val \<Rightarrow> string \<Rightarrow> effect option) \<Rightarrow> disposable \<Rightarrow> event list" where
  "expected_cleanup ms d =
     (case dclose d of
        Some (Hook h f) \<Rightarrow> [HookCalled h (dinstance d)]
      | None \<Rightarrow>
          (if ms (dinstance d) ''dispose'' \<noteq> None then [MethodCalled ''dispose'' (dinstance d)]
           else if ms (dinstance d) ''close'' \<noteq> None then [MethodCalled ''close'' (dinstance d)]
           else if ms (dinstance d) ''destroy'' \<noteq> None then [MethodCalled ''destroy'' (dinstance d)]
           else []))"


text \<open>A computation keeps an invariant of the state, however it ends.\<close>

definition preserves :: "(world \<Rightarrow> bool) \<Rightarrow> 'a comp \<Rightarrow> bool" where
  "preserves I m = (\<forall>w r w'. I w \<and> m w = Some (r, w') \<longrightarrow> I w')"

section \<open>Scenarios\<close>

definition Repo :: ident where "Repo = Ident 1 ''Repo'' True"

text \<open>\<^verbatim>\<open>startDI(module(singleOf(Repo)))\<close>\<close>

definition world_repo :: world where
  "world_repo = snd (startDI None [singleOf Repo NoOpts] world0)"

definition outcome :: "'a comp \<Rightarrow> world \<Rightarrow> (error + 'a) option" where
  "outcome m w = map_option fst (m w)"

definition state_after :: "'a comp \<Rightarrow> world \<Rightarrow> world" where
  "state_after m w = (case m w of Some (r, w') \<Rightarrow> w' | None \<Rightarrow> w)"

text \<open>... then \<^verbatim>\<open>beginScope()\<close>.\<close>

definition world_repo_scope :: world where
  "world_repo_scope = snd (beginScope Root world_repo)"

text \<open>Two classes of the same name, declared in different places.\<close>

definition ServiceA :: ident where "ServiceA = Ident 2 ''Service'' True"

definition ServiceB :: ident where "ServiceB = Ident 3 ''Service'' True"

definition world_same_name :: world where
  "world_same_name =
     snd (startDI None [singleOf ServiceA NoOpts, singleOf ServiceB NoOpts] world0)"

definition world_same_name_dep :: world where
  "world_same_name_dep =
     snd (startDI None [singleOf ServiceA (Opts None (Some [ServiceB]) None),
                        singleOf ServiceB NoOpts] world0)"

text \<open>
  \<^verbatim>\<open>singleOf(Conn, async () => new Conn('memory://'))\<close>,
  \<^verbatim>\<open>singleOf(Db, async ({getAsync}) => new Db(await getAsync(Conn)))\<close>
\<close>

definition Conn :: ident where "Conn = Ident 4 ''Conn'' True"

definition Db :: ident where "Db = Ident 5 ''Db'' True"

definition world_async :: world where
  "world_async =
     snd (startDI None
       [singleOf Conn (Fn (AsyncFn (New Conn [Lit ''memory://''] Return))),
        singleOf Db (Fn (AsyncFn (CtxGetAsync Conn None (\<lambda>c. New Db [c] Return))))]
       world0)"

text \<open>
  The override test: \<^verbatim>\<open>singleOf(S, () => new Impl1())\<close> in one module,
  \<^verbatim>\<open>singleOf(S, () => new Impl2())\<close> in another.
\<close>

definition SvcS :: ident where "SvcS = Ident 6 ''S'' True"

definition Impl1 :: ident where "Impl1 = Ident 7 ''Impl1'' True"

definition Impl2 :: ident where "Impl2 = Ident 8 ''Impl2'' True"

definition provA :: provider where
  "provA = singleOf SvcS (Fn (SyncFn (New Impl1 [] Return)))"

definition provB :: provider where
  "provB = singleOf SvcS (Fn (SyncFn (New Impl2 [] Return)))"

definition lastWinsOpts :: StartOptions where
  "lastWinsOpts = \<lparr> opt_allowOverride = Some True, opt_overrideStrategy = Some LastWins \<rparr>"

definition defaultOpts :: StartOptions where
  "defaultOpts = \<lparr> opt_allowOverride = None, opt_overrideStrategy = None \<rparr>"

definition world_lastWins :: world where
  "world_lastWins = snd (startDI (Some lastWinsOpts) [provA, provB] world0)"

text \<open>Providers written as plain objects: one with two construction modes, one with none.\<close>

definition Cfg :: ident where "Cfg = Ident 9 ''Cfg'' True"

definition two_modes :: provider where
  "two_modes = \<lparr> kind = Single, pid = Cfg, qualifier = None, useClass = Some Cfg,
                 useFactory = None, useValue = Some (Lit ''cfg''), deps = None,
                 onClose = None \<rparr>"

definition no_mode :: provider where
  "no_mode = \<lparr> kind = Single, pid = Cfg, qualifier = None, useClass = None,
               useFactory = None, useValue = None, deps = None, onClose = None \<rparr>"

definition world_two_modes :: world where
  "world_two_modes = snd (startDI None [two_modes] world0)"

definition world_no_mode :: world where
  "world_no_mode = snd (startDI None [no_mode] world0)"




text \<open>A scoped class, as in the scope test: \<^verbatim>\<open>scopedOf(RequestCtx)\<close>.\<close>

definition RequestCtx :: ident where "RequestCtx = Ident 12 ''RequestCtx'' True"

definition world_scoped :: world where
  "world_scoped = snd (startDI None [scopedOf RequestCtx NoOpts] world0)"

text \<open>
  \<^verbatim>\<open>const shared = new Logger()\<close> at module level (object 0), then
  \<^verbatim>\<open>startDI(module(scopedOf(Logger, () => shared)))\<close>.
\<close>

definition Logger :: ident where "Logger = Ident 13 ''Logger'' True"

definition world_shared :: world where
  "world_shared =
     snd (startDI None [scopedOf Logger (Fn (SyncFn (Return (Obj 0 Logger []))))]
            (world0\<lparr> next_addr := 1 \<rparr>))"




text \<open>Two scopes begun, one after the other, from the process-wide container.\<close>

definition two_scopes :: "world \<Rightarrow> world" where
  "two_scopes w = snd (beginScope Root (snd (beginScope Root w)))"


section \<open>Disposal (shutdown)\<close>

lemma invoke_frame:
  "log (snd (invoke ev eff w)) = log w @ [ev] \<and> methods (snd (invoke ev eff w)) = methods w
   \<and> conts (snd (invoke ev eff w)) = conts w"
  by (cases eff) (simp_all add: invoke_def)

lemma tryAutoDispose_frame:
  "log (snd (tryAutoDispose obj w)) =
     log w @ expected_cleanup (methods w) \<lparr> dkey = k, dinstance = obj, dclose = None \<rparr>
   \<and> methods (snd (tryAutoDispose obj w)) = methods w
   \<and> conts (snd (tryAutoDispose obj w)) = conts w"
  by (auto simp: tryAutoDispose_def expected_cleanup_def invoke_frame split: option.splits)

lemma dispose_entry_frame:
  "log (snd (dispose_entry d w)) = log w @ expected_cleanup (methods w) d
   \<and> methods (snd (dispose_entry d w)) = methods w
   \<and> conts (snd (dispose_entry d w)) = conts w"
proof (cases "dclose d")
  case None
  then have "expected_cleanup (methods w) d =
      expected_cleanup (methods w) \<lparr> dkey = dkey d, dinstance = dinstance d, dclose = None \<rparr>"
    by (simp add: expected_cleanup_def)
  with None show ?thesis
    using tryAutoDispose_frame [of "dinstance d" w "dkey d"]
    by (simp add: dispose_entry_def)
next
  case (Some h)
  then show ?thesis
    by (cases h) (simp add: dispose_entry_def expected_cleanup_def invoke_frame)
qed

lemma dispose_all_frame:
  "log (fold (\<lambda>d. swallow (dispose_entry d)) ds w) =
     log w @ concat (map (expected_cleanup (methods w)) ds)
   \<and> methods (fold (\<lambda>d. swallow (dispose_entry d)) ds w) = methods w
   \<and> conts (fold (\<lambda>d. swallow (dispose_entry d)) ds w) = conts w"
proof (induction ds arbitrary: w)
  case Nil
  show ?case by simp
next
  case (Cons d ds)
  show ?case
    using Cons.IH [of "swallow (dispose_entry d) w"] dispose_entry_frame [of d w]
    by (simp add: swallow_def)
qed

text \<open>
  C8. \<^verbatim>\<open>shutdown()\<close> calls the cleanup of every entry of the disposal list once, the
  last entry first: the declared hook when there is one, otherwise the first of
  \<^verbatim>\<open>dispose\<close>, \<^verbatim>\<open>close\<close>, \<^verbatim>\<open>destroy\<close> the instance has. This holds whatever
  the cleanups do (return, throw, or return a promise that is fulfilled or rejected), so
  a failing cleanup stops none of the later ones. Afterwards the disposal list and both
  caches of the container are empty, and nothing else of any container has changed.
\<close>

theorem shutdown_reverse_order_once:
  "log (shutdown c w) =
     log w @ concat (map (expected_cleanup (methods w)) (rev (disposables (conts w c))))
   \<and> conts (shutdown c w) =
       (conts w)(c := (conts w c)\<lparr> disposables := [], singles := Map.empty,
                                   scopedCache := Map.empty \<rparr>)"
  using dispose_all_frame [of "rev (disposables (conts w c))" w]
  by (simp add: shutdown_def upd_def Let_def)

section \<open>Singletons across the container tree\<close>

text \<open>
  C1. A \<open>single\<close> is the same instance for every \<^verbatim>\<open>get\<close> in the container tree.
  The code writes a built singleton to the root's cache (\<^verbatim>\<open>this.root().singles\<close>)
  but reads \<^verbatim>\<open>this.singles\<close>, which in a scope is the scope's own, always empty
  map. After \<^verbatim>\<open>startDI(module(singleOf(Repo)))\<close> and \<^verbatim>\<open>beginScope()\<close>: the root
  builds \<open>Repo\<close> (object 0), the scope builds it again (object 1), and again at its next
  \<^verbatim>\<open>get\<close> (object 2).
\<close>

theorem single_rebuilt_in_scope:
  "(let s = Scope 0 Root;
        w1 = state_after (get 2 Root Repo None) world_repo_scope;
        w2 = state_after (get 2 s Repo None) w1
    in fst (beginScope Root world_repo) = s
     \<and> outcome (get 2 Root Repo None) world_repo_scope = Some (Inr (Obj 0 Repo []))
     \<and> outcome (get 2 s Repo None) w1 = Some (Inr (Obj 1 Repo []))
     \<and> outcome (get 2 s Repo None) w2 = Some (Inr (Obj 2 Repo [])))"
  by code_simp

section \<open>Keys of the caches and of the in-flight set\<close>

text \<open>
  C2. Distinct identifiers never share a cache entry or an in-flight mark. The registry
  is keyed by the identifier itself, but the caches and the in-flight set are keyed by
  the string \<open>keyOf\<close> renders. With two distinct classes both named \<open>Service\<close>, both
  registered as \<open>single\<close>: after \<^verbatim>\<open>get(ServiceA)\<close>, \<^verbatim>\<open>get(ServiceB)\<close> returns the
  instance of \<open>ServiceA\<close>; and when \<open>ServiceA\<close> depends on \<open>ServiceB\<close>,
  \<^verbatim>\<open>get(ServiceA)\<close> reports a circular dependency although there is no cycle.
\<close>

theorem same_name_collides:
  "ServiceA \<noteq> ServiceB
   \<and> fst (startDI None [singleOf ServiceA NoOpts, singleOf ServiceB NoOpts] world0) = None
   \<and> outcome (get 2 Root ServiceA None) world_same_name = Some (Inr (Obj 0 ServiceA []))
   \<and> outcome (get 2 Root ServiceB None)
        (state_after (get 2 Root ServiceA None) world_same_name) =
      Some (Inr (Obj 0 ServiceA []))
   \<and> outcome (get 3 Root ServiceA None) world_same_name_dep =
      Some (Inl (Error ''Circular dependency detected at Service''))"
  by code_simp

section \<open>The in-flight mark after a failure\<close>

text \<open>
  C3. When \<^verbatim>\<open>get\<close> ends, the key is no longer in flight. The code removes the mark
  only on the path that returns an instance. With the asynchronous \<open>Db\<close> factory:
  \<^verbatim>\<open>get(Db)\<close> throws the sync-against-async error and leaves \<open>Db\<close> marked, so the
  next \<^verbatim>\<open>get(Db)\<close>, and \<^verbatim>\<open>getAsync(Db)\<close> too, report a circular dependency;
  without the failed call \<^verbatim>\<open>getAsync(Db)\<close> resolves.
\<close>

theorem failed_get_stays_in_flight:
  "(let w1 = state_after (get 2 Root Db None) world_async
    in outcome (get 2 Root Db None) world_async =
         Some (Inl (Error
           ''Tried to resolve async provider with sync get(): Db. Use getAsync().''))
     \<and> ''Db'' \<in> resolving (conts w1 Root)
     \<and> outcome (get 2 Root Db None) w1 =
         Some (Inl (Error ''Circular dependency detected at Db''))
     \<and> outcome (getAsync 3 Root Db None) w1 =
         Some (Inl (Error ''Circular dependency detected at Db''))
     \<and> outcome (getAsync 3 Root Db None) world_async =
         Some (Inr (Obj 1 Db [Obj 0 Conn [Lit ''memory://'']])))"
  by code_simp

section \<open>Reaching the build step\<close>

lemma get_builds:
  assumes "singles (conts w c) (keyOf i q) = None"
    and "scopedCache (conts w c) (keyOf i q) = None"
    and "getProvider w c i q = Some p"
    and "keyOf i q \<notin> resolving (conts w c)"
  shows "get (Suc n) c i q w = build n c p (keyOf i q) w"
  using assms by (simp add: get_body_def Let_def build_def)

lemma getProvider_local:
  "lookup (conts w c) i q = Some p \<Longrightarrow> getProvider w c i q = Some p"
  by (cases c) simp_all

lemma getProvider_cong:
  "(\<And>c'. providers (conts w' c') = providers (conts w c')) \<Longrightarrow>
   getProvider w' c i q = getProvider w c i q"
  by (induction c) (simp_all add: lookup_def split: option.splits)


section \<open>Construction modes\<close>

text \<open>
  C4, as the claim states it, fails: a provider with two construction modes set is not
  rejected. \<open>two_modes\<close> sets both \<^verbatim>\<open>useValue\<close> and \<^verbatim>\<open>useClass\<close>; it is registered
  without an error and \<^verbatim>\<open>get\<close> returns the value.
\<close>

theorem two_modes_not_rejected:
  "fst (startDI None [two_modes] world0) = None
   \<and> useValue two_modes \<noteq> None \<and> useClass two_modes \<noteq> None
   \<and> outcome (get 2 Root Cfg None) world_two_modes = Some (Inr (Lit ''cfg''))"
  by code_simp

text \<open>
  C4, amended. When \<^verbatim>\<open>get\<close> reaches the build step (the key is not cached and not in
  flight, a provider \<open>p\<close> is found): a provider that sets none of value, factory and class
  fails with the error \<open>Invalid provider for <key>\<close>, the key staying marked; a provider
  that sets a value yields that value, whatever else it sets; and a provider that sets a
  factory and no value is built by the factory, its class being ignored.
\<close>

theorem construction_mode_order:
  assumes "singles (conts w c) (keyOf i q) = None"
    and "scopedCache (conts w c) (keyOf i q) = None"
    and "getProvider w c i q = Some p"
    and "keyOf i q \<notin> resolving (conts w c)"
  shows "(useValue p = None \<and> useFactory p = None \<and> useClass p = None \<longrightarrow>
            get (Suc n) c i q w =
              Some (Inl (Error (''Invalid provider for '' @ keyOf (pid p) (qualifier p))),
                    mark c (keyOf i q) w))
       \<and> (\<forall>v. useValue p = Some v \<longrightarrow>
            get (Suc n) c i q w =
              Some (Inr v, unmark c (keyOf i q)
                             (cacheAndTrack c p (keyOf i q) v (mark c (keyOf i q) w))))
       \<and> (useValue p = None \<and> useFactory p \<noteq> None \<longrightarrow>
            instantiate (get n c) (getAsync n c) p =
              instantiate (get n c) (getAsync n c) (p\<lparr> useClass := None \<rparr>))"
  using get_builds [OF assms, of n]
  by (auto simp: build_def instantiate_def ok_def throw_def cacheAndTrack_def
           split: option.splits factory_fn.splits)

theorem construction_mode_order_witness:
  "outcome (get 2 Root Cfg None) world_no_mode = Some (Inl (Error ''Invalid provider for Cfg''))
   \<and> get 2 Root Cfg None world_two_modes =
       Some (Inr (Lit ''cfg''),
             unmark Root ''Cfg'' (cacheAndTrack Root two_modes ''Cfg'' (Lit ''cfg'')
               (mark Root ''Cfg'' world_two_modes)))"
proof -
  have k: "keyOf Cfg None = ''Cfg''" by (simp add: keyOf_def Cfg_def)
  have p1: "getProvider world_no_mode Root Cfg None = Some no_mode"
    by (simp add: world_no_mode_def startDI_def configure_def new_container_def
          setProvider_def no_mode_def Let_def upd_def lookup_def world0_def)
  have p2: "getProvider world_two_modes Root Cfg None = Some two_modes"
    by (simp add: world_two_modes_def startDI_def configure_def new_container_def
          setProvider_def two_modes_def Let_def upd_def lookup_def world0_def)
  have c1: "singles (conts world_no_mode Root) (keyOf Cfg None) = None"
    "scopedCache (conts world_no_mode Root) (keyOf Cfg None) = None"
    "keyOf Cfg None \<notin> resolving (conts world_no_mode Root)"
    by (simp_all add: world_no_mode_def startDI_def configure_def new_container_def
          setProvider_def no_mode_def Let_def upd_def world0_def)
  have c2: "singles (conts world_two_modes Root) (keyOf Cfg None) = None"
    "scopedCache (conts world_two_modes Root) (keyOf Cfg None) = None"
    "keyOf Cfg None \<notin> resolving (conts world_two_modes Root)"
    by (simp_all add: world_two_modes_def startDI_def configure_def new_container_def
          setProvider_def two_modes_def Let_def upd_def world0_def)
  have a: "get 2 Root Cfg None world_no_mode =
      Some (Inl (Error (''Invalid provider for '' @ keyOf (pid no_mode) (qualifier no_mode))),
            mark Root (keyOf Cfg None) world_no_mode)"
    using construction_mode_order [OF c1(1) c1(2) p1 c1(3), of 1]
    by (simp add: no_mode_def numeral_2_eq_2)
  have b: "get 2 Root Cfg None world_two_modes =
       Some (Inr (Lit ''cfg''),
             unmark Root (keyOf Cfg None)
               (cacheAndTrack Root two_modes (keyOf Cfg None) (Lit ''cfg'')
                 (mark Root (keyOf Cfg None) world_two_modes)))"
    using construction_mode_order [OF c2(1) c2(2) p2 c2(3), of 1]
    by (simp add: two_modes_def numeral_2_eq_2)
  show ?thesis
    using a b k by (simp add: outcome_def no_mode_def keyOf_def Cfg_def)
qed

section \<open>Override policy\<close>

lemma setProvider_lookup:
  "setProvider p cn = Inr cn' \<Longrightarrow> lookup cn' (pid p) (qualifier p) = Some p"
  by (auto simp: setProvider_def lookup_def Let_def split: if_splits)

lemma setProvider_twice:
  assumes "setProvider p1 cn = Inr cn1" "pid p2 = pid p1" "qualifier p2 = qualifier p1"
  shows "setProvider p2 cn1 =
           (if allowOverride cn \<and> overrideStrategy cn = LastWins
            then setProvider p2 cn
            else Inl (BeanOverrideError (keyOf (pid p2) (qualifier p2))))"
  using assms
  by (cases "overrideStrategy cn")
     (auto simp: setProvider_def Let_def split: if_splits option.splits)

lemma setProvider_lastWins:
  "allowOverride cn \<Longrightarrow> overrideStrategy cn = LastWins \<Longrightarrow> \<exists>cn'. setProvider p cn = Inr cn'"
  by (simp add: setProvider_def Let_def)

text \<open>
  C5. Let \<open>p1\<close> be registered, and \<open>p2\<close> be a provider for the same identifier and
  qualifier. Unless override is allowed and the strategy is last-wins, registering \<open>p2\<close>
  fails with \<^verbatim>\<open>BeanOverrideError\<close> naming the key; this is so for a new container and
  for one configured with the default options. When override is allowed with last-wins,
  registering \<open>p2\<close> succeeds and leaves the registry that registering \<open>p2\<close> alone would
  have left: \<open>p2\<close> is the one provider under the key, and a \<^verbatim>\<open>get\<close> that finds the key
  neither cached nor in flight builds from \<open>p2\<close>.
\<close>

theorem override_policy:
  assumes "setProvider p1 cn = Inr cn1"
    and "pid p2 = pid p1" and "qualifier p2 = qualifier p1"
  shows "(\<not> (allowOverride cn \<and> overrideStrategy cn = LastWins) \<longrightarrow>
            setProvider p2 cn1 = Inl (BeanOverrideError (keyOf (pid p2) (qualifier p2))))
       \<and> (allowOverride cn \<and> overrideStrategy cn = LastWins \<longrightarrow>
            (\<exists>cn2. setProvider p2 cn1 = Inr cn2 \<and> setProvider p2 cn = Inr cn2
                 \<and> lookup cn2 (pid p2) (qualifier p2) = Some p2
                 \<and> (\<forall>w c n. conts w c = cn2
                        \<and> singles cn2 (keyOf (pid p2) (qualifier p2)) = None
                        \<and> scopedCache cn2 (keyOf (pid p2) (qualifier p2)) = None
                        \<and> keyOf (pid p2) (qualifier p2) \<notin> resolving cn2 \<longrightarrow>
                      get (Suc n) c (pid p2) (qualifier p2) w =
                        build n c p2 (keyOf (pid p2) (qualifier p2)) w)))
       \<and> \<not> allowOverride new_container
       \<and> \<not> allowOverride (configure defaultOpts new_container)"
proof (intro conjI impI)
  assume "\<not> (allowOverride cn \<and> overrideStrategy cn = LastWins)"
  then show "setProvider p2 cn1 = Inl (BeanOverrideError (keyOf (pid p2) (qualifier p2)))"
    using setProvider_twice [OF assms] by auto
next
  assume lw: "allowOverride cn \<and> overrideStrategy cn = LastWins"
  then obtain cn2 where cn2: "setProvider p2 cn = Inr cn2"
    using setProvider_lastWins by blast
  with lw have again: "setProvider p2 cn1 = Inr cn2"
    using setProvider_twice [OF assms] by simp
  have look: "lookup cn2 (pid p2) (qualifier p2) = Some p2"
    using cn2 by (rule setProvider_lookup)
  have "get (Suc n) c (pid p2) (qualifier p2) w = build n c p2 (keyOf (pid p2) (qualifier p2)) w"
    if "conts w c = cn2" "singles cn2 (keyOf (pid p2) (qualifier p2)) = None"
      "scopedCache cn2 (keyOf (pid p2) (qualifier p2)) = None"
      "keyOf (pid p2) (qualifier p2) \<notin> resolving cn2" for w c n
    using that look by (intro get_builds getProvider_local) simp_all
  with cn2 again look
  show "\<exists>cn2. setProvider p2 cn1 = Inr cn2 \<and> setProvider p2 cn = Inr cn2
                 \<and> lookup cn2 (pid p2) (qualifier p2) = Some p2
                 \<and> (\<forall>w c n. conts w c = cn2
                        \<and> singles cn2 (keyOf (pid p2) (qualifier p2)) = None
                        \<and> scopedCache cn2 (keyOf (pid p2) (qualifier p2)) = None
                        \<and> keyOf (pid p2) (qualifier p2) \<notin> resolving cn2 \<longrightarrow>
                      get (Suc n) c (pid p2) (qualifier p2) w =
                        build n c p2 (keyOf (pid p2) (qualifier p2)) w)"
    by blast
next
  show "\<not> allowOverride new_container" by (simp add: new_container_def)
next
  show "\<not> allowOverride (configure defaultOpts new_container)"
    by (simp add: configure_def defaultOpts_def new_container_def)
qed

theorem override_policy_witness:
  "(let cn = configure defaultOpts new_container; cn' = configure lastWinsOpts new_container
    in (case setProvider provA cn of
          Inr cn1 \<Rightarrow> setProvider provB cn1 = Inl (BeanOverrideError ''S'')
        | Inl e \<Rightarrow> False)
     \<and> (case setProvider provA cn' of
          Inr cn1 \<Rightarrow> setProvider provB cn1 = setProvider provB cn'
        | Inl e \<Rightarrow> False)
     \<and> fst (startDI None [provA, provB] world0) = Some (BeanOverrideError ''S'')
     \<and> fst (startDI (Some lastWinsOpts) [provA, provB] world0) = None
     \<and> lookup (conts world_lastWins Root) SvcS None = Some provB
     \<and> outcome (get 2 Root SvcS None) world_lastWins = Some (Inr (Obj 0 Impl2 [])))"
proof -
  obtain cn1 where 1: "setProvider provA (configure defaultOpts new_container) = Inr cn1"
    by (simp add: setProvider_def Let_def configure_def defaultOpts_def new_container_def)
  obtain cn1' where 2: "setProvider provA (configure lastWinsOpts new_container) = Inr cn1'"
    by (simp add: setProvider_def Let_def configure_def lastWinsOpts_def new_container_def)
  have same: "pid provB = pid provA" "qualifier provB = qualifier provA"
    by (simp_all add: provA_def provB_def singleOf_def providerOf_def)
  have a: "setProvider provB cn1 = Inl (BeanOverrideError (keyOf (pid provB) (qualifier provB)))"
    using override_policy [OF 1 same]
    by (simp add: configure_def defaultOpts_def new_container_def)
  have b: "setProvider provB cn1' = setProvider provB (configure lastWinsOpts new_container)"
    using override_policy [OF 2 same]
    by (auto simp add: configure_def lastWinsOpts_def new_container_def)
  have k: "keyOf (pid provB) (qualifier provB) = ''S''"
    by (simp add: provB_def singleOf_def providerOf_def keyOf_def SvcS_def)
  have rest: "fst (startDI None [provA, provB] world0) = Some (BeanOverrideError ''S'')
     \<and> fst (startDI (Some lastWinsOpts) [provA, provB] world0) = None
     \<and> outcome (get 2 Root SvcS None) world_lastWins = Some (Inr (Obj 0 Impl2 []))"
    by code_simp
  have look: "lookup (conts world_lastWins Root) SvcS None = Some provB"
    by (simp add: world_lastWins_def startDI_def lastWinsOpts_def configure_def
          new_container_def setProvider_def provA_def provB_def singleOf_def providerOf_def
          Let_def upd_def lookup_def world0_def)
  show ?thesis
    using 1 2 a b k rest look by (simp add: Let_def)
qed

section \<open>Circular dependencies\<close>







section \<open>Asynchronous providers\<close>



section \<open>Invariants of a resolution\<close>

lemma preservesD: "preserves I m \<Longrightarrow> I w \<Longrightarrow> m w = Some (r, w') \<Longrightarrow> I w'"
  unfolding preserves_def by blast

lemma preserves_ok: "preserves I (ok a)"
  by (simp add: preserves_def ok_def)

lemma preserves_throw: "preserves I (throw e)"
  by (simp add: preserves_def throw_def)

lemma preserves_thenC:
  assumes "preserves I m" and "\<And>a. preserves I (f a)"
  shows "preserves I (thenC m f)"
  unfolding preserves_def
proof (intro allI impI)
  fix w r w'
  assume h: "I w \<and> thenC m f w = Some (r, w')"
  show "I w'"
  proof (cases "m w")
    case None
    with h show ?thesis by (simp add: thenC_def)
  next
    case (Some x)
    obtain r1 w1 where x: "x = (r1, w1)" by (cases x)
    with Some h assms(1) have 1: "I w1" by (auto dest: preservesD)
    show ?thesis
    proof (cases r1)
      case (Inl e)
      with Some x h 1 show ?thesis by (simp add: thenC_def)
    next
      case (Inr a)
      with Some x h have "f a w1 = Some (r, w')" by (simp add: thenC_def)
      with 1 assms(2) show ?thesis by (auto dest: preservesD)
    qed
  qed
qed

lemma preserves_mapC:
  assumes "\<And>x. preserves I (f x)"
  shows "preserves I (mapC f xs)"
  by (induction xs) (auto intro!: preserves_thenC preserves_ok assms)

lemma preserves_run:
  assumes "\<And>i q. preserves I (g i q)" and "\<And>i q. preserves I (ga i q)"
    and "\<And>cl as. preserves I (new_obj cl as)"
  shows "preserves I (run g ga body)"
proof (induction body)
  case (Return v)
  show ?case by (simp add: preserves_ok)
next
  case (Throw msg)
  show ?case by (simp add: preserves_throw)
next
  case (New cl as k)
  have "preserves I (thenC (new_obj cl as) (\<lambda>v. run g ga (k v)))"
    by (intro preserves_thenC assms(3) New.IH) simp
  then show ?case by (simp add: preserves_def)
next
  case (CtxGet i q k)
  have "preserves I (thenC (g i q) (\<lambda>v. run g ga (k v)))"
    by (intro preserves_thenC assms(1) CtxGet.IH) simp
  then show ?case by (simp add: preserves_def)
next
  case (CtxGetAsync i q k)
  have "preserves I (thenC (ga i q) (\<lambda>v. run g ga (k v)))"
    by (intro preserves_thenC assms(2) CtxGetAsync.IH) simp
  then show ?case by (simp add: preserves_def)
qed

lemma preserves_construct:
  assumes "\<And>i q. preserves I (g i q)" and "\<And>cl as. preserves I (new_obj cl as)"
  shows "preserves I (construct g ctor)"
  unfolding preserves_def
proof (intro allI impI)
  fix w r w'
  assume h: "I w \<and> construct g ctor w = Some (r, w')"
  have 1: "preserves I (thenC (mapC (\<lambda>dep. g dep None) ts) (new_obj ctor))" for ts
    by (intro preserves_thenC preserves_mapC assms)
  show "I w'"
  proof (cases "paramTypes w ctor = []")
    case True
    with h have "new_obj ctor [] w = Some (r, w')"
      by (simp add: construct_def)
    with h assms(2) show ?thesis by (blast dest: preservesD)
  next
    case False
    with h have "thenC (mapC (\<lambda>dep. g dep None) (paramTypes w ctor)) (new_obj ctor) w
                   = Some (r, w')"
      by (simp add: construct_def Let_def)
    with h 1 show ?thesis by (blast dest: preservesD)
  qed
qed

lemma preserves_constructAsync:
  assumes "\<And>i q. preserves I (ga i q)" and "\<And>cl as. preserves I (new_obj cl as)"
  shows "preserves I (constructAsync ga ctor)"
  unfolding preserves_def
proof (intro allI impI)
  fix w r w'
  assume h: "I w \<and> constructAsync ga ctor w = Some (r, w')"
  have 1: "preserves I (thenC (mapC (\<lambda>dep. ga dep None) ts) (new_obj ctor))" for ts
    by (intro preserves_thenC preserves_mapC assms)
  show "I w'"
  proof (cases "paramTypes w ctor = []")
    case True
    with h have "new_obj ctor [] w = Some (r, w')"
      by (simp add: constructAsync_def)
    with h assms(2) show ?thesis by (blast dest: preservesD)
  next
    case False
    with h have "thenC (mapC (\<lambda>dep. ga dep None) (paramTypes w ctor)) (new_obj ctor) w
                   = Some (r, w')"
      by (simp add: constructAsync_def Let_def)
    with h 1 show ?thesis by (blast dest: preservesD)
  qed
qed

lemma preserves_instantiate:
  assumes "\<And>i q. preserves I (g i q)" and "\<And>i q. preserves I (ga i q)"
    and "\<And>cl as. preserves I (new_obj cl as)"
  shows "preserves I (instantiate g ga p)"
  unfolding instantiate_def
  by (auto split: option.splits factory_fn.splits
           intro!: preserves_ok preserves_throw preserves_thenC preserves_mapC
                   preserves_run preserves_construct assms)

lemma preserves_get_body:
  assumes g: "\<And>i q. preserves I (g i q)" and ga: "\<And>i q. preserves I (ga i q)"
    and alloc: "\<And>cl as. preserves I (new_obj cl as)"
    and mk: "\<And>k w. I w \<Longrightarrow> k \<notin> resolving (conts w c) \<Longrightarrow> I (mark c k w)"
    and fin: "\<And>k p v w0 w. I w0 \<Longrightarrow> k \<notin> resolving (conts w0 c) \<Longrightarrow> I w \<Longrightarrow>
                I (unmark c k (cacheAndTrack c p k v w))"
  shows "preserves I (get_body g ga c i q)"
  unfolding preserves_def
proof (intro allI impI)
  fix w r w'
  assume h: "I w \<and> get_body g ga c i q w = Some (r, w')"
  let ?k = "keyOf i q"
  note inst = preserves_instantiate [of I g ga, OF g ga alloc]
  note cons = preserves_construct [of I g, OF g alloc]
  show "I w'"
  proof (cases "singles (conts w c) ?k = None \<and> scopedCache (conts w c) ?k = None")
    case False
    with h show ?thesis
      by (auto simp: get_body_def Let_def ok_def split: option.splits)
  next
    case miss: True
    show ?thesis
    proof (cases "getProvider w c i q")
      case None
      with h miss show ?thesis
        using preservesD [OF cons, of w i r w']
        by (auto simp: get_body_def Let_def throw_def split: if_splits)
    next
      case (Some p)
      show ?thesis
      proof (cases "?k \<in> resolving (conts w c)")
        case True
        with h miss Some show ?thesis
          by (auto simp: get_body_def Let_def throw_def)
      next
        case False
        with h have Im: "I (mark c ?k w)" by (simp add: mk)
        from h miss Some False
        obtain r1 w1 where i1: "instantiate g ga p (mark c ?k w) = Some (r1, w1)"
          by (cases "instantiate g ga p (mark c ?k w)")
             (auto simp: get_body_def Let_def)
        have I1: "I w1" using preservesD [OF inst Im i1] .
        from h miss Some False i1
        have "w' = w1 \<or> (\<exists>v. w' = unmark c ?k (cacheAndTrack c p ?k v w1))"
          by (auto simp: get_body_def Let_def split: sum.splits maybe.splits)
        moreover have "I (unmark c ?k (cacheAndTrack c p ?k v w1))" for v
          using h False I1 by (intro fin [of w]) simp_all
        ultimately show ?thesis using I1 by blast
      qed
    qed
  qed
qed

lemma preserves_getAsync_body:
  assumes g: "\<And>i q. preserves I (g i q)" and ga: "\<And>i q. preserves I (ga i q)"
    and alloc: "\<And>cl as. preserves I (new_obj cl as)"
    and mk: "\<And>k w. I w \<Longrightarrow> k \<notin> resolving (conts w c) \<Longrightarrow> I (mark c k w)"
    and fin: "\<And>k p v w0 w. I w0 \<Longrightarrow> k \<notin> resolving (conts w0 c) \<Longrightarrow> I w \<Longrightarrow>
                I (unmark c k (cacheAndTrack c p k v w))"
  shows "preserves I (getAsync_body g ga c i q)"
  unfolding preserves_def
proof (intro allI impI)
  fix w r w'
  assume h: "I w \<and> getAsync_body g ga c i q w = Some (r, w')"
  let ?k = "keyOf i q"
  let ?m = "thenC (instantiate g ga p)
              (\<lambda>m. case m of Later body \<Rightarrow> run g ga body | Now v \<Rightarrow> ok v)"
  have inst: "preserves I (thenC (instantiate g ga p)
              (\<lambda>m. case m of Later body \<Rightarrow> run g ga body | Now v \<Rightarrow> ok v))" for p
    by (intro preserves_thenC preserves_instantiate g ga alloc)
       (auto split: maybe.splits intro!: preserves_ok preserves_run g ga alloc)
  note cons = preserves_constructAsync [of I ga, OF ga alloc]
  show "I w'"
  proof (cases "singles (conts w c) ?k = None \<and> scopedCache (conts w c) ?k = None")
    case False
    with h show ?thesis
      by (auto simp: getAsync_body_def Let_def ok_def split: option.splits)
  next
    case miss: True
    show ?thesis
    proof (cases "getProvider w c i q")
      case None
      with h miss show ?thesis
        using preservesD [OF cons, of w i r w']
        by (auto simp: getAsync_body_def Let_def throw_def split: if_splits)
    next
      case (Some p)
      show ?thesis
      proof (cases "?k \<in> resolving (conts w c)")
        case True
        with h miss Some show ?thesis
          by (auto simp: getAsync_body_def Let_def throw_def)
      next
        case False
        with h have Im: "I (mark c ?k w)" by (simp add: mk)
        from h miss Some False
        obtain r1 w1 where i1: "thenC (instantiate g ga p)
              (\<lambda>m. case m of Later body \<Rightarrow> run g ga body | Now v \<Rightarrow> ok v) (mark c ?k w)
              = Some (r1, w1)"
          by (cases "thenC (instantiate g ga p)
              (\<lambda>m. case m of Later body \<Rightarrow> run g ga body | Now v \<Rightarrow> ok v) (mark c ?k w)")
             (auto simp: getAsync_body_def Let_def)
        have I1: "I w1" using preservesD [OF inst Im i1] .
        from h miss Some False i1
        have "w' = w1 \<or> (\<exists>v. w' = unmark c ?k (cacheAndTrack c p ?k v w1))"
          by (auto simp: getAsync_body_def Let_def split: sum.splits)
        moreover have "I (unmark c ?k (cacheAndTrack c p ?k v w1))" for v
          using h False I1 by (intro fin [of w]) simp_all
        ultimately show ?thesis using I1 by blast
      qed
    qed
  qed
qed

lemma preserves_get:
  assumes alloc: "\<And>cl as. preserves I (new_obj cl as)"
    and mk: "\<And>k w. I w \<Longrightarrow> k \<notin> resolving (conts w c) \<Longrightarrow> I (mark c k w)"
    and fin: "\<And>k p v w0 w. I w0 \<Longrightarrow> k \<notin> resolving (conts w0 c) \<Longrightarrow> I w \<Longrightarrow>
                I (unmark c k (cacheAndTrack c p k v w))"
  shows "(\<forall>i q. preserves I (get n c i q)) \<and> (\<forall>i q. preserves I (getAsync n c i q))"
proof (induction n)
  case 0
  show ?case by (simp add: preserves_def)
next
  case (Suc n)
  have g: "preserves I (get n c i q)" and ga: "preserves I (getAsync n c i q)" for i q
    using Suc by blast+
  have 1: "get (Suc n) c i q = get_body (get n c) (getAsync n c) c i q"
    and 2: "getAsync (Suc n) c i q = getAsync_body (get n c) (getAsync n c) c i q" for i q
    by (rule ext, simp)+
  have "preserves I (get (Suc n) c i q)" for i q
    unfolding 1 by (rule preserves_get_body [OF g ga alloc mk fin])
  moreover have "preserves I (getAsync (Suc n) c i q)" for i q
    unfolding 2 by (rule preserves_getAsync_body [OF g ga alloc mk fin])
  ultimately show ?case by blast
qed

section \<open>Frame facts of a resolution\<close>

lemma root_Root: "root c = Root"
  by (induction c) simp_all

lemma next_addr_upd [simp]: "next_addr (upd c f w) = next_addr w"
  by (simp add: upd_def)

lemma next_addr_cacheAndTrack [simp]: "next_addr (cacheAndTrack c p k v w) = next_addr w"
  by (simp add: cacheAndTrack_def Let_def)

lemma next_addr_monotone:
  "preserves (\<lambda>w. N \<le> next_addr w) (get n c i q)
   \<and> preserves (\<lambda>w. N \<le> next_addr w) (getAsync n c i q)"
proof -
  have "(\<forall>i q. preserves (\<lambda>w. N \<le> next_addr w) (get n c i q))
      \<and> (\<forall>i q. preserves (\<lambda>w. N \<le> next_addr w) (getAsync n c i q))"
    by (rule preserves_get) (auto simp: preserves_def new_obj_def mark_def unmark_def)
  then show ?thesis by blast
qed

text \<open>
  While a key is in flight and not among the singletons of the container, nothing a
  nested resolution does puts it there: a nested \<^verbatim>\<open>get\<close> of the same key string is
  refused as circular before it builds.
\<close>

lemma key_protected:
  "preserves (\<lambda>w. k \<in> resolving (conts w c) \<and> singles (conts w c) k = None) (get n c i q)
   \<and> preserves (\<lambda>w. k \<in> resolving (conts w c) \<and> singles (conts w c) k = None)
        (getAsync n c i q)"
proof -
  let ?I = "\<lambda>w. k \<in> resolving (conts w c) \<and> singles (conts w c) k = None"
  have alloc: "preserves ?I (new_obj cl as)" for cl as
    by (auto simp: preserves_def new_obj_def)
  have mk: "?I (mark c k' w)" if "?I w" for k' w
    using that by (simp add: mark_def upd_def)
  have fin: "?I (unmark c k' (cacheAndTrack c p k' v w))"
    if "?I w0" "k' \<notin> resolving (conts w0 c)" "?I w" for k' p v w0 w
  proof -
    from that have "k' \<noteq> k" by auto
    with that(3) show ?thesis
      by (auto simp: unmark_def cacheAndTrack_def upd_def Let_def)
  qed
  have "(\<forall>i q. preserves ?I (get n c i q)) \<and> (\<forall>i q. preserves ?I (getAsync n c i q))"
    by (rule preserves_get) (use alloc mk fin in blast)+
  then show ?thesis by blast
qed

text \<open>A resolution in container \<open>c\<close> leaves every container but \<open>c\<close> and the root as it was.\<close>

lemma other_container_untouched:
  assumes "s \<noteq> c" and "s \<noteq> Root"
  shows "preserves (\<lambda>w. conts w s = X) (get n c i q)
       \<and> preserves (\<lambda>w. conts w s = X) (getAsync n c i q)"
proof -
  let ?I = "\<lambda>w. conts w s = X"
  have "(\<forall>i q. preserves ?I (get n c i q)) \<and> (\<forall>i q. preserves ?I (getAsync n c i q))"
    using assms
    by (intro preserves_get)
       (auto simp: preserves_def new_obj_def mark_def unmark_def cacheAndTrack_def upd_def
                   Let_def root_Root)
  then show ?thesis by blast
qed

lemma providers_untouched:
  "preserves (\<lambda>w. \<forall>c'. providers (conts w c') = P c') (get n c i q)
   \<and> preserves (\<lambda>w. \<forall>c'. providers (conts w c') = P c') (getAsync n c i q)"
proof -
  let ?I = "\<lambda>w. \<forall>c'. providers (conts w c') = P c'"
  have "(\<forall>i q. preserves ?I (get n c i q)) \<and> (\<forall>i q. preserves ?I (getAsync n c i q))"
    by (intro preserves_get)
       (auto simp: preserves_def new_obj_def mark_def unmark_def cacheAndTrack_def upd_def
                   Let_def)
  then show ?thesis by blast
qed

section \<open>Scoped instances\<close>

lemma cached_get:
  assumes "singles (conts w c) (keyOf i q) = Some v
         \<or> (singles (conts w c) (keyOf i q) = None \<and> scopedCache (conts w c) (keyOf i q) = Some v)"
  shows "get (Suc m) c i q w = Some (Inr v, w) \<and> getAsync (Suc m) c i q w = Some (Inr v, w)"
  using assms by (auto simp: get_body_def getAsync_body_def Let_def ok_def)

lemma build_scoped_cached:
  assumes "kind p = Scoped"
    and "singles (conts w' c) k = None"
  shows "singles (conts (unmark c k (cacheAndTrack c p k v w')) c) k = None
       \<and> scopedCache (conts (unmark c k (cacheAndTrack c p k v w')) c) k = Some v"
  using assms by (simp add: unmark_def cacheAndTrack_def upd_def Let_def)

lemma scoped_cached_after_get:
  assumes p: "getProvider w c i q = Some p" and kind: "kind p = Scoped"
    and g: "get (Suc n) c i q w = Some (Inr v, w1)"
  shows "singles (conts w1 c) (keyOf i q) = Some v
       \<or> (singles (conts w1 c) (keyOf i q) = None
          \<and> scopedCache (conts w1 c) (keyOf i q) = Some v)"
proof -
  let ?k = "keyOf i q"
  let ?I = "\<lambda>w. ?k \<in> resolving (conts w c) \<and> singles (conts w c) ?k = None"
  show ?thesis
  proof (cases "singles (conts w c) ?k = None \<and> scopedCache (conts w c) ?k = None")
    case False
    with g show ?thesis
      by (auto simp: get_body_def Let_def ok_def split: option.splits)
  next
    case miss: True
    with g p have nr: "?k \<notin> resolving (conts w c)"
      by (auto simp: get_body_def Let_def throw_def split: if_splits)
    from g miss p nr obtain w' where
      i: "instantiate (get n c) (getAsync n c) p (mark c ?k w) = Some (Inr (Now v), w')"
      and w1: "w1 = unmark c ?k (cacheAndTrack c p ?k v w')"
      by (auto simp: get_body_def Let_def split: option.splits sum.splits maybe.splits)
    have pg: "preserves ?I (get n c i' q')" and pga: "preserves ?I (getAsync n c i' q')"
      for i' q'
      using key_protected [of ?k c n i' q'] by blast+
    have alloc: "preserves ?I (new_obj cl as)" for cl as
      by (auto simp: preserves_def new_obj_def)
    have "preserves ?I (instantiate (get n c) (getAsync n c) p)"
      by (intro preserves_instantiate pg pga alloc)
    moreover have "?I (mark c ?k w)"
      using miss by (simp add: mark_def upd_def)
    ultimately have "?I w'" using i by (rule preservesD)
    then show ?thesis
      using build_scoped_cached [OF kind, of w' c ?k v] w1 by simp
  qed
qed

lemma scoped_cached_after_getAsync:
  assumes p: "getProvider w c i q = Some p" and kind: "kind p = Scoped"
    and g: "getAsync (Suc n) c i q w = Some (Inr v, w1)"
  shows "singles (conts w1 c) (keyOf i q) = Some v
       \<or> (singles (conts w1 c) (keyOf i q) = None
          \<and> scopedCache (conts w1 c) (keyOf i q) = Some v)"
proof -
  let ?k = "keyOf i q"
  let ?I = "\<lambda>w. ?k \<in> resolving (conts w c) \<and> singles (conts w c) ?k = None"
  let ?m = "thenC (instantiate (get n c) (getAsync n c) p)
              (\<lambda>m. case m of Later body \<Rightarrow> run (get n c) (getAsync n c) body | Now v \<Rightarrow> ok v)"
  show ?thesis
  proof (cases "singles (conts w c) ?k = None \<and> scopedCache (conts w c) ?k = None")
    case False
    with g show ?thesis
      by (auto simp: getAsync_body_def Let_def ok_def split: option.splits)
  next
    case miss: True
    with g p have nr: "?k \<notin> resolving (conts w c)"
      by (auto simp: getAsync_body_def Let_def throw_def split: if_splits)
    from g miss p nr obtain w' where
      i: "?m (mark c ?k w) = Some (Inr v, w')"
      and w1: "w1 = unmark c ?k (cacheAndTrack c p ?k v w')"
      by (auto simp: getAsync_body_def Let_def split: option.splits sum.splits)
    have pg: "preserves ?I (get n c i' q')" and pga: "preserves ?I (getAsync n c i' q')"
      for i' q'
      using key_protected [of ?k c n i' q'] by blast+
    have alloc: "preserves ?I (new_obj cl as)" for cl as
      by (auto simp: preserves_def new_obj_def)
    have "preserves ?I ?m"
      by (intro preserves_thenC preserves_instantiate pg pga alloc)
         (auto split: maybe.splits intro!: preserves_ok preserves_run pg pga alloc)
    moreover have "?I (mark c ?k w)"
      using miss by (simp add: mark_def upd_def)
    ultimately have "?I w'" using i by (rule preservesD)
    then show ?thesis
      using build_scoped_cached [OF kind, of w' c ?k v] w1 by simp
  qed
qed

text \<open>Class construction ends with \<^verbatim>\<open>new\<close>: the instance is an object not allocated before.\<close>

lemma new_after:
  assumes "thenC m (new_obj cl) w = Some (Inr v, w')"
    and "preserves (\<lambda>x. next_addr w \<le> next_addr x) m"
  shows "\<exists>a as. v = Obj a cl as \<and> next_addr w \<le> a \<and> next_addr w' = Suc a"
proof -
  from assms(1) obtain as w1 where m: "m w = Some (Inr as, w1)"
    and n: "new_obj cl as w1 = Some (Inr v, w')"
    by (auto simp: thenC_def split: option.splits sum.splits)
  from assms(2) m have "next_addr w \<le> next_addr w1"
    by (auto dest: preservesD)
  with n show ?thesis by (auto simp: new_obj_def)
qed

lemma instantiate_class_fresh:
  assumes mode: "useValue p = None" "useFactory p = None" "useClass p \<noteq> None"
    and g: "\<And>i q. preserves (\<lambda>x. next_addr w \<le> next_addr x) (g i q)"
    and i: "instantiate g ga p w = Some (Inr mb, w')"
  shows "\<exists>a cl as. mb = Now (Obj a cl as) \<and> next_addr w \<le> a \<and> next_addr w' = Suc a"
proof -
  from mode obtain cl where cl: "useClass p = Some cl" by auto
  have pm: "preserves (\<lambda>x. next_addr w \<le> next_addr x) (mapC (\<lambda>d. g d None) ds)" for ds
    by (intro preserves_mapC g)
  show ?thesis
  proof (cases "case deps p of None \<Rightarrow> False | Some ds \<Rightarrow> ds \<noteq> []")
    case True
    with i mode cl obtain v where
      "thenC (mapC (\<lambda>d. g d None) (the (deps p))) (new_obj cl) w = Some (Inr v, w')"
      and "mb = Now v"
      by (auto simp: instantiate_def thenC_def ok_def split: option.splits sum.splits)
    with new_after [OF _ pm] show ?thesis by blast
  next
    case False
    with i mode cl obtain v where c: "construct g cl w = Some (Inr v, w')" and mb: "mb = Now v"
      by (auto simp: instantiate_def thenC_def ok_def split: option.splits sum.splits)
    show ?thesis
    proof (cases "paramTypes w cl = []")
      case True
      with c mb show ?thesis by (auto simp: construct_def new_obj_def)
    next
      case False
      with c have "thenC (mapC (\<lambda>d. g d None) (paramTypes w cl)) (new_obj cl) w
                     = Some (Inr v, w')"
        by (simp add: construct_def Let_def)
      with new_after [OF _ pm] mb show ?thesis by blast
    qed
  qed
qed

lemma beginScope_facts:
  assumes "beginScope c w = (s, w')"
  shows "s = Scope (next_scope w) c"
    and "conts w' = (conts w)(s := new_container\<lparr> allowOverride := allowOverride (conts w c),
                                  overrideStrategy := overrideStrategy (conts w c) \<rparr>)"
    and "next_scope w' = Suc (next_scope w)"
  using assms by (auto simp: beginScope_def Let_def configure_def)

lemma getProvider_above:
  "size c < size s \<Longrightarrow> (\<And>c'. c' \<noteq> s \<Longrightarrow> conts w' c' = conts w c') \<Longrightarrow>
   getProvider w' c i q = getProvider w c i q"
proof (induction c)
  case Root
  then have "Root \<noteq> s" by auto
  with Root.prems(2) have "conts w' Root = conts w Root" by simp
  then show ?case by simp
next
  case (Scope n c)
  from Scope.prems(1) have "Scope n c \<noteq> s" by auto
  with Scope.prems(2) have eq: "conts w' (Scope n c) = conts w (Scope n c)" by simp
  have "getProvider w' c i q = getProvider w c i q"
    using Scope.IH Scope.prems by simp
  with eq show ?case by (simp split: option.splits)
qed

text \<open>
  Two scopes begun one after the other from \<open>c\<close>: the second builds for itself whatever
  the first has resolved.
\<close>

lemma second_scope_builds:
  assumes b1: "beginScope c w = (s1, wa)" and b2: "beginScope c wa = (s2, wb)"
    and p: "getProvider w c i q = Some p"
    and g1: "get (Suc n) s1 i q wb = Some (r1, w1)"
  shows "get (Suc n) s1 i q wb = build n s1 p (keyOf i q) wb"
    and "get (Suc m) s2 i q w1 = build m s2 p (keyOf i q) w1"
    and "next_addr wb \<le> next_addr w1"
proof -
  let ?k = "keyOf i q"
  note f1 = beginScope_facts [OF b1] and f2 = beginScope_facts [OF b2]
  have ne: "s1 \<noteq> s2" "s2 \<noteq> Root" "s1 \<noteq> Root"
    using f1(1,3) f2(1) by auto
  have fresh1: "conts wb s1 = new_container\<lparr> allowOverride := allowOverride (conts w c),
                                  overrideStrategy := overrideStrategy (conts w c) \<rparr>"
    using f1(2) f2(2) ne by simp
  have fresh2: "conts wb s2 = new_container\<lparr> allowOverride := allowOverride (conts wa c),
                                  overrideStrategy := overrideStrategy (conts wa c) \<rparr>"
    using f2(2) by simp
  have pa: "getProvider wa c i q = Some p"
    using getProvider_above [of c s1 wa w i q] f1(1,2) p by simp
  have pb: "getProvider wb c i q = Some p"
    using getProvider_above [of c s2 wb wa i q] f2(1,2) pa by simp
  have p1: "getProvider wb s1 i q = Some p"
    using fresh1 pb f1(1) by (simp add: lookup_def new_container_def)
  have p2: "getProvider wb s2 i q = Some p"
    using fresh2 pb f2(1) by (simp add: lookup_def new_container_def)
  show "get (Suc n) s1 i q wb = build n s1 p ?k wb"
    using fresh1 p1 by (intro get_builds) (simp_all add: new_container_def)
  have "conts w1 s2 = conts wb s2"
    using other_container_untouched [OF ne(1) [symmetric] ne(2), of "conts wb s2" "Suc n" i q] g1
    by (auto dest: preservesD)
  moreover have "\<forall>c'. providers (conts w1 c') = providers (conts wb c')"
    using providers_untouched [of "\<lambda>c'. providers (conts wb c')" "Suc n" s1 i q] g1
    by (auto dest: preservesD)
  then have "getProvider w1 s2 i q = Some p"
    using p2 getProvider_cong [of w1 wb s2 i q] by simp
  ultimately show "get (Suc m) s2 i q w1 = build m s2 p ?k w1"
    using fresh2 by (intro get_builds) (simp_all add: new_container_def)
  show "next_addr wb \<le> next_addr w1"
    using next_addr_monotone [of "next_addr wb" "Suc n" s1 i q] g1
    by (auto dest: preservesD)
qed

lemma build_class_fresh:
  assumes mode: "useValue p = None" "useFactory p = None" "useClass p \<noteq> None"
    and b: "build n c p k w = Some (Inr v, w')"
  shows "\<exists>a cl as. v = Obj a cl as \<and> next_addr w \<le> a \<and> next_addr w' = Suc a"
proof -
  from b obtain w1 where
    i: "instantiate (get n c) (getAsync n c) p (mark c k w) = Some (Inr (Now v), w1)"
    and w': "w' = unmark c k (cacheAndTrack c p k v w1)"
    by (auto simp: build_def split: option.splits sum.splits maybe.splits)
  have "preserves (\<lambda>x. next_addr (mark c k w) \<le> next_addr x) (get n c i q)" for i q
    using next_addr_monotone by blast
  from instantiate_class_fresh [OF mode this i]
  show ?thesis using w' by (auto simp: mark_def unmark_def)
qed

text \<open>
  C9, as the claim states it, fails: scopes begun independently do not always get
  distinct instances. With \<^verbatim>\<open>scopedOf(Logger, () => shared)\<close>, where \<open>shared\<close> is an
  object made before (object 0), the scopes \<open>Scope 0 Root\<close> and \<open>Scope 1 Root\<close> both
  run the factory and both return that one object.
\<close>

theorem scoped_factory_shares_instance:
  "fst (beginScope Root world_shared) = Scope 0 Root
   \<and> fst (beginScope Root (snd (beginScope Root world_shared))) = Scope 1 Root
   \<and> outcome (get 2 (Scope 0 Root) Logger None) (two_scopes world_shared) =
       Some (Inr (Obj 0 Logger []))
   \<and> outcome (get 2 (Scope 1 Root) Logger None)
        (state_after (get 2 (Scope 0 Root) Logger None) (two_scopes world_shared)) =
       Some (Inr (Obj 0 Logger []))"
  by code_simp

text \<open>
  C9, amended. (1) For an identifier whose provider is \<open>scoped\<close>, a resolution
  (\<^verbatim>\<open>get\<close> or \<^verbatim>\<open>getAsync\<close>) that returns an instance is followed, in the same
  container, by resolutions that return the same instance and change nothing.
  (2) Of two scopes begun one after the other from a container, each builds the
  identifier for itself (the second runs the provider again, whatever the first
  resolved), and when the provider constructs a class the two instances are distinct
  objects. (3) A scope begun by \<^verbatim>\<open>beginScope()\<close> has its parent as parent, empty
  caches, an empty registry and in-flight set, an empty disposal list, and the parent's
  override policy; no other container changes.
\<close>

theorem scoped_instances:
  "(getProvider w c i q = Some p \<and> kind p = Scoped
      \<and> (get (Suc n) c i q w = Some (Inr v, w1) \<or> getAsync (Suc n) c i q w = Some (Inr v, w1))
    \<longrightarrow> get (Suc m) c i q w1 = Some (Inr v, w1)
      \<and> getAsync (Suc m) c i q w1 = Some (Inr v, w1))
 \<and> (beginScope c w = (s1, wa) \<and> beginScope c wa = (s2, wb)
      \<and> getProvider w c i q = Some p
      \<and> get (Suc n) s1 i q wb = Some (Inr v1, wc)
    \<longrightarrow> s1 \<noteq> s2
      \<and> get (Suc n) s1 i q wb = build n s1 p (keyOf i q) wb
      \<and> get (Suc m) s2 i q wc = build m s2 p (keyOf i q) wc
      \<and> (useValue p = None \<and> useFactory p = None \<and> useClass p \<noteq> None
          \<and> get (Suc m) s2 i q wc = Some (Inr v2, wd) \<longrightarrow> v1 \<noteq> v2))
 \<and> (beginScope c w = (s, w') \<longrightarrow>
      parent s = Some c
      \<and> singles (conts w' s) = Map.empty \<and> scopedCache (conts w' s) = Map.empty
      \<and> disposables (conts w' s) = [] \<and> providers (conts w' s) = Map.empty
      \<and> resolving (conts w' s) = {}
      \<and> allowOverride (conts w' s) = allowOverride (conts w c)
      \<and> overrideStrategy (conts w' s) = overrideStrategy (conts w c)
      \<and> conts w' = (conts w)(s := conts w' s))"
proof (intro conjI impI)
  assume h: "getProvider w c i q = Some p \<and> kind p = Scoped
      \<and> (get (Suc n) c i q w = Some (Inr v, w1) \<or> getAsync (Suc n) c i q w = Some (Inr v, w1))"
  then have "singles (conts w1 c) (keyOf i q) = Some v
       \<or> (singles (conts w1 c) (keyOf i q) = None
          \<and> scopedCache (conts w1 c) (keyOf i q) = Some v)"
    using scoped_cached_after_get [of w c i q p n v w1]
      scoped_cached_after_getAsync [of w c i q p n v w1] by blast
  from cached_get [OF this, of m]
  show "get (Suc m) c i q w1 = Some (Inr v, w1)"
    and "getAsync (Suc m) c i q w1 = Some (Inr v, w1)" by simp_all
next
  assume h: "beginScope c w = (s1, wa) \<and> beginScope c wa = (s2, wb)
      \<and> getProvider w c i q = Some p
      \<and> get (Suc n) s1 i q wb = Some (Inr v1, wc)"
  then have b1: "beginScope c w = (s1, wa)" and b2: "beginScope c wa = (s2, wb)"
    and p: "getProvider w c i q = Some p"
    and g1: "get (Suc n) s1 i q wb = Some (Inr v1, wc)" by simp_all
  note sb = second_scope_builds [OF b1 b2 p g1]
  show "s1 \<noteq> s2"
    using beginScope_facts [OF b1] beginScope_facts [OF b2] by auto
  show "get (Suc n) s1 i q wb = build n s1 p (keyOf i q) wb" by (rule sb(1))
  show "get (Suc m) s2 i q wc = build m s2 p (keyOf i q) wc" by (rule sb(2))
  assume c: "useValue p = None \<and> useFactory p = None \<and> useClass p \<noteq> None
          \<and> get (Suc m) s2 i q wc = Some (Inr v2, wd)"
  then have mode: "useValue p = None" "useFactory p = None" "useClass p \<noteq> None"
    and g2: "get (Suc m) s2 i q wc = Some (Inr v2, wd)" by simp_all
  from g1 sb(1) have "build n s1 p (keyOf i q) wb = Some (Inr v1, wc)" by simp
  from build_class_fresh [OF mode this]
  obtain a1 where v1: "addr v1 = a1" "next_addr wc = Suc a1" by auto
  from g2 sb(2) [of m] have "build m s2 p (keyOf i q) wc = Some (Inr v2, wd)" by simp
  from build_class_fresh [OF mode this]
  obtain a2 where v2: "addr v2 = a2" "next_addr wc \<le> a2" by auto
  from v1 v2 show "v1 \<noteq> v2" by auto
next
  assume b: "beginScope c w = (s, w')"
  note f = beginScope_facts [OF b]
  from f(1) show "parent s = Some c" by simp
  from f(2) show "singles (conts w' s) = Map.empty" "scopedCache (conts w' s) = Map.empty"
    "disposables (conts w' s) = []" "providers (conts w' s) = Map.empty"
    "resolving (conts w' s) = {}"
    "allowOverride (conts w' s) = allowOverride (conts w c)"
    "overrideStrategy (conts w' s) = overrideStrategy (conts w c)"
    "conts w' = (conts w)(s := conts w' s)"
    by (simp_all add: new_container_def)
qed

lemma outcome_state: "outcome m w = Some r \<Longrightarrow> m w = Some (r, state_after m w)"
  by (cases "m w") (auto simp: outcome_def state_after_def)

theorem scoped_instances_witness:
  "outcome (get 2 (Scope 0 Root) RequestCtx None) (two_scopes world_scoped) =
     Some (Inr (Obj 0 RequestCtx []))
   \<and> get 1 (Scope 0 Root) RequestCtx None
        (state_after (get 2 (Scope 0 Root) RequestCtx None) (two_scopes world_scoped)) =
       Some (Inr (Obj 0 RequestCtx []),
             state_after (get 2 (Scope 0 Root) RequestCtx None) (two_scopes world_scoped))
   \<and> outcome (get 2 (Scope 1 Root) RequestCtx None)
        (state_after (get 2 (Scope 0 Root) RequestCtx None) (two_scopes world_scoped)) =
       Some (Inr (Obj 1 RequestCtx []))
   \<and> Scope 0 Root \<noteq> Scope 1 Root
   \<and> Obj 0 RequestCtx [] \<noteq> Obj 1 RequestCtx []"
proof -
  let ?p = "scopedOf RequestCtx NoOpts"
  let ?s1 = "Scope 0 Root" and ?s2 = "Scope 1 Root"
  let ?wa = "snd (beginScope Root world_scoped)"
  let ?wb = "two_scopes world_scoped"
  let ?wc = "state_after (get 2 ?s1 RequestCtx None) ?wb"
  let ?wd = "state_after (get 2 ?s2 RequestCtx None) ?wc"
  have o: "outcome (get 2 ?s1 RequestCtx None) ?wb = Some (Inr (Obj 0 RequestCtx []))
         \<and> outcome (get 2 ?s2 RequestCtx None) ?wc = Some (Inr (Obj 1 RequestCtx []))"
    by code_simp
  have g1: "get (Suc 1) ?s1 RequestCtx None ?wb = Some (Inr (Obj 0 RequestCtx []), ?wc)"
    using o outcome_state [of "get 2 ?s1 RequestCtx None" ?wb] by (simp add: numeral_2_eq_2)
  have g2: "get (Suc 1) ?s2 RequestCtx None ?wc = Some (Inr (Obj 1 RequestCtx []), ?wd)"
    using o outcome_state [of "get 2 ?s2 RequestCtx None" ?wc] by (simp add: numeral_2_eq_2)
  have f: "fst (beginScope Root world_scoped) = ?s1 \<and> fst (beginScope Root ?wa) = ?s2"
    by code_simp
  have b1: "beginScope Root world_scoped = (?s1, ?wa)"
    using f by (metis prod.collapse)
  have b2: "beginScope Root ?wa = (?s2, ?wb)"
    using f unfolding two_scopes_def by (metis prod.collapse)
  have p0: "getProvider world_scoped Root RequestCtx None = Some ?p"
    by (simp add: world_scoped_def startDI_def configure_def new_container_def
          setProvider_def scopedOf_def providerOf_def Let_def upd_def lookup_def world0_def)
  have pb: "getProvider ?wb ?s1 RequestCtx None = Some ?p"
    by (simp add: two_scopes_def beginScope_def world_scoped_def startDI_def configure_def
          new_container_def setProvider_def scopedOf_def providerOf_def Let_def upd_def
          lookup_def world0_def)
  have mode: "kind ?p = Scoped" "useValue ?p = None" "useFactory ?p = None"
    "useClass ?p \<noteq> None"
    by (simp_all add: scopedOf_def providerOf_def)
  have same: "get (Suc 0) ?s1 RequestCtx None ?wc = Some (Inr (Obj 0 RequestCtx []), ?wc)"
    using scoped_instances [of ?wb ?s1 RequestCtx None ?p 1 "Obj 0 RequestCtx []" ?wc 0]
      pb mode(1) g1 by blast
  have differ: "?s1 \<noteq> ?s2 \<and> Obj 0 RequestCtx [] \<noteq> Obj 1 RequestCtx []"
    using scoped_instances [of world_scoped Root RequestCtx None ?p 1 _ _ 1 ?s1 ?wa ?s2 ?wb
        "Obj 0 RequestCtx []" ?wc "Obj 1 RequestCtx []" ?wd]
      b1 b2 p0 g1 g2 mode by blast
  show ?thesis
    using o same differ by (simp del: get.simps getAsync.simps)
qed

section \<open>Fallback construction of an unregistered class\<close>




end
